theory Spec2Isabelle
  imports Main
begin

section \<open>Data model of \<^verbatim>\<open>elevator_simulation.js\<close>\<close>

text \<open>
  Floors are the integers the JavaScript numbers hold. A JavaScript number is a double:
  comparisons of integers are exact, and the difference of two floors is exact as long
  as neither exceeds \<open>2 ^ 52\<close> in absolute value, so the distances of \<open>score\<close> and
  \<open>closest_reduce\<close> below are those of the code for such floors, and the properties that
  rest on a distance are stated for them. \<^verbatim>\<open>Direction\<close> and
  \<^verbatim>\<open>DoorState\<close> are the two constant objects of the source. A \<^verbatim>\<open>FloorRequest\<close>
  carries a floor and a direction; its \<^verbatim>\<open>timestamp\<close> is written once and never read,
  so it is left out, as are the three timing constants and every log line. The awaited
  delays of \<^verbatim>\<open>_wait\<close> change no field, so a cycle of one car is one state transformer.
\<close>

datatype Direction = UP | DOWN | IDLE

datatype DoorState = OPEN | CLOSED | OPENING | CLOSING

record FloorRequest =
  req_floor :: int
  req_direction :: Direction

record Elevator =
  elevatorId :: int
  minFloor :: int
  maxFloor :: int
  currentFloor :: int
  direction :: Direction
  doorState :: DoorState
  floorRequests :: "int list"
  hallRequests :: "FloorRequest list"
  isMoving :: bool
  capacity :: int
  currentPassengers :: int

record ElevatorController =
  elevators :: "Elevator list"
  ctl_minFloor :: int
  ctl_maxFloor :: int

section \<open>Class \<^verbatim>\<open>Elevator\<close>\<close>

definition new_Elevator :: "int \<Rightarrow> int \<Rightarrow> int \<Rightarrow> Elevator" where
  "new_Elevator eid minF maxF =
     \<lparr> elevatorId = eid, minFloor = minF, maxFloor = maxF, currentFloor = 1,
       direction = IDLE, doorState = CLOSED, floorRequests = [], hallRequests = [],
       isMoving = False, capacity = 8, currentPassengers = 0 \<rparr>"

definition isValidFloor :: "Elevator \<Rightarrow> int \<Rightarrow> bool" where
  "isValidFloor e f \<longleftrightarrow> f \<ge> minFloor e \<and> f \<le> maxFloor e"

text \<open>\<^verbatim>\<open>requestFloor\<close>: the boolean returned, and the car after the call.\<close>

definition requestFloor :: "int \<Rightarrow> Elevator \<Rightarrow> bool \<times> Elevator" where
  "requestFloor f e =
     (if \<not> isValidFloor e f then (False, e)
      else if f = currentFloor e \<and> doorState e = CLOSED then (True, e)
      else if f \<notin> set (floorRequests e)
        then (True, e\<lparr>floorRequests := sort (floorRequests e @ [f])\<rparr>)
      else (True, e))"

text \<open>\<^verbatim>\<open>Elevator.callElevator\<close>: the hall call as one car receives it.\<close>

definition callElevator :: "int \<Rightarrow> Direction \<Rightarrow> Elevator \<Rightarrow> bool \<times> Elevator" where
  "callElevator f d e =
     (if \<not> isValidFloor e f then (False, e)
      else if (f = maxFloor e \<and> d = UP) \<or> (f = minFloor e \<and> d = DOWN) then (False, e)
      else (case find (\<lambda>req. req_floor req = f \<and> req_direction req = d) (hallRequests e) of
              None \<Rightarrow> (True, e\<lparr>hallRequests :=
                          hallRequests e @ [\<lparr>req_floor = f, req_direction = d\<rparr>]\<rparr>)
            | Some existingRequest \<Rightarrow> (True, e)))"

text \<open>
  \<^verbatim>\<open>_getNextDestination\<close>. A JavaScript \<^verbatim>\<open>Set\<close> keeps its members in the order of their
  first insertion and \<^verbatim>\<open>Array.from\<close> reads them in that order, so the set is a list
  without repetition, grown at its end.
\<close>

definition set_add :: "int list \<Rightarrow> int \<Rightarrow> int list" where
  "set_add xs x = (if x \<in> set xs then xs else xs @ [x])"

definition hall_eligible :: "Elevator \<Rightarrow> FloorRequest \<Rightarrow> bool" where
  "hall_eligible e request \<longleftrightarrow>
     direction e = IDLE \<or>
     req_direction request = direction e \<or>
     req_floor request = currentFloor e \<or>
     (direction e = UP \<and> req_floor request > currentFloor e) \<or>
     (direction e = DOWN \<and> req_floor request < currentFloor e)"

definition allFloors :: "Elevator \<Rightarrow> int list" where
  "allFloors e =
     fold (\<lambda>request acc. if hall_eligible e request then set_add acc (req_floor request) else acc)
          (hallRequests e)
          (fold (\<lambda>f acc. set_add acc f) (floorRequests e) [])"

text \<open>\<^verbatim>\<open>Math.min(...xs)\<close> and \<^verbatim>\<open>Math.max(...xs)\<close>, called on non-empty arrays only.\<close>

fun Math_min :: "int list \<Rightarrow> int option" where
  "Math_min [] = None"
| "Math_min (x # xs) = Some (fold min xs x)"

fun Math_max :: "int list \<Rightarrow> int option" where
  "Math_max [] = None"
| "Math_max (x # xs) = Some (fold max xs x)"

text \<open>The \<^verbatim>\<open>reduce\<close> of the fallback: no initial value, so the first member starts it.\<close>

fun closest_reduce :: "int \<Rightarrow> int list \<Rightarrow> int option" where
  "closest_reduce cur [] = None"
| "closest_reduce cur (x # xs) =
     Some (fold (\<lambda>current closest.
                   if \<bar>current - cur\<bar> < \<bar>closest - cur\<bar> then current else closest) xs x)"

definition getNextDestination :: "Elevator \<Rightarrow> int option" where
  "getNextDestination e =
     (let floorsArray = allFloors e;
          upFloors = filter (\<lambda>f. f > currentFloor e) floorsArray;
          downFloors = filter (\<lambda>f. f < currentFloor e) floorsArray
      in if floorsArray = [] then None
         else if (direction e = UP \<or> direction e = IDLE) \<and> upFloors \<noteq> []
           then Math_min upFloors
         else if (direction e = DOWN \<or> direction e = IDLE) \<and> downFloors \<noteq> []
           then Math_max downFloors
         else if direction e \<noteq> IDLE \<and> floorsArray \<noteq> []
           then closest_reduce (currentFloor e) floorsArray
         else None)"

definition updateDirection :: "int \<Rightarrow> Elevator \<Rightarrow> Elevator" where
  "updateDirection destination e =
     (if destination > currentFloor e then e\<lparr>direction := UP\<rparr>
      else if destination < currentFloor e then e\<lparr>direction := DOWN\<rparr>
      else e\<lparr>direction := IDLE\<rparr>)"

definition removeCompletedRequests :: "int \<Rightarrow> Elevator \<Rightarrow> Elevator" where
  "removeCompletedRequests f e =
     e\<lparr>floorRequests := remove1 f (floorRequests e),
       hallRequests := filter (\<lambda>req. \<not> (req_floor req = f \<and>
                          (req_direction req = direction e \<or> direction e = IDLE)))
                        (hallRequests e)\<rparr>"

definition openDoors :: "Elevator \<Rightarrow> Elevator" where
  "openDoors e = (e\<lparr>doorState := OPENING\<rparr>)\<lparr>doorState := OPEN\<rparr>"

definition closeDoors :: "Elevator \<Rightarrow> Elevator" where
  "closeDoors e = (e\<lparr>doorState := CLOSING\<rparr>)\<lparr>doorState := CLOSED\<rparr>"

definition moveToFloor :: "int \<Rightarrow> Elevator \<Rightarrow> Elevator" where
  "moveToFloor targetFloor e =
     (if targetFloor = currentFloor e then e
      else ((updateDirection targetFloor e)\<lparr>isMoving := True\<rparr>)
             \<lparr>currentFloor := targetFloor, isMoving := False\<rparr>)"

definition runCycle :: "Elevator \<Rightarrow> bool \<times> Elevator" where
  "runCycle e =
     (case getNextDestination e of
        None \<Rightarrow> (False, e\<lparr>direction := IDLE\<rparr>)
      | Some destination \<Rightarrow>
          (True, closeDoors (removeCompletedRequests destination
                               (openDoors (moveToFloor destination e)))))"

section \<open>Class \<^verbatim>\<open>ElevatorController\<close>\<close>

definition new_ElevatorController :: "nat \<Rightarrow> int \<Rightarrow> int \<Rightarrow> ElevatorController" where
  "new_ElevatorController numElevators minF maxF =
     \<lparr> elevators = map (\<lambda>i. new_Elevator (int i + 1) minF maxF) [0..<numElevators],
       ctl_minFloor = minF, ctl_maxFloor = maxF \<rparr>"

definition score :: "int \<Rightarrow> Direction \<Rightarrow> Elevator \<Rightarrow> int" where
  "score f d elevator =
     (let s0 = \<bar>currentFloor elevator - f\<bar>;
          s1 = (if direction elevator = d then s0 - 2 else s0)
      in if isMoving elevator \<or> floorRequests elevator \<noteq> [] \<or> hallRequests elevator \<noteq> []
         then s1 + 1 else s1)"

text \<open>
  The selection loop. The pair is \<^verbatim>\<open>bestElevator\<close> (as its index in the array) with
  \<^verbatim>\<open>bestScore\<close>; \<open>None\<close> is the start, \<^verbatim>\<open>null\<close> with \<^verbatim>\<open>Infinity\<close>, below which every
  score lies.
\<close>

fun bestLoop :: "int \<Rightarrow> Direction \<Rightarrow> nat \<Rightarrow> Elevator list \<Rightarrow> (nat \<times> int) option
                   \<Rightarrow> (nat \<times> int) option" where
  "bestLoop f d i [] best = best"
| "bestLoop f d i (elevator # rest) best =
     bestLoop f d (Suc i) rest
       (case best of
          None \<Rightarrow> Some (i, score f d elevator)
        | Some (bestElevator, bestScore) \<Rightarrow>
            if score f d elevator < bestScore then Some (i, score f d elevator) else best)"

definition controller_callElevator ::
    "int \<Rightarrow> Direction \<Rightarrow> ElevatorController \<Rightarrow> bool \<times> ElevatorController" where
  "controller_callElevator f d c =
     (if f < ctl_minFloor c \<or> f > ctl_maxFloor c then (False, c)
      else (case bestLoop f d 0 (elevators c) None of
              None \<Rightarrow> (False, c)
            | Some (bestElevator, bestScore) \<Rightarrow>
                (let r = callElevator f d (elevators c ! bestElevator)
                 in (fst r, c\<lparr>elevators := (elevators c)[bestElevator := snd r]\<rparr>))))"

text \<open>
  One round of the driving loop of \<^verbatim>\<open>demoElevatorSystem\<close>: \<^verbatim>\<open>runCycle\<close> on every car,
  then \<^verbatim>\<open>results.some(result => result)\<close>. The cars share no field, so the order in
  which their cycles run does not matter.
\<close>

definition stepAll :: "ElevatorController \<Rightarrow> bool \<times> ElevatorController" where
  "stepAll c =
     (let results = map runCycle (elevators c)
      in (list_ex fst results, c\<lparr>elevators := map snd results\<rparr>))"

section \<open>Notions the properties are stated with\<close>

text \<open>
  The eligible set of a car: every pending cabin floor, and the floor of every pending
  hall request that passes the test of the loop in \<^verbatim>\<open>_getNextDestination\<close>.
\<close>

definition eligible_floors :: "Elevator \<Rightarrow> int set" where
  "eligible_floors e =
     set (floorRequests e) \<union> req_floor ` {r \<in> set (hallRequests e). hall_eligible e r}"

text \<open>
  The floors whose differences the code computes without rounding: with both operands
  in this range the result of \<^verbatim>\<open>Math.abs(a - b)\<close> is at most \<open>2 ^ 53\<close> and exact.
\<close>

definition exact_floor :: "int \<Rightarrow> bool" where
  "exact_floor f \<longleftrightarrow> \<bar>f\<bar> \<le> 2 ^ 52"

text \<open>The three operations a caller has on one car, and a run of them.\<close>

datatype car_op = RequestFloor int | CallElevator int Direction | RunCycle

fun exec_op :: "car_op \<Rightarrow> Elevator \<Rightarrow> Elevator" where
  "exec_op (RequestFloor f) e = snd (requestFloor f e)"
| "exec_op (CallElevator f d) e = snd (callElevator f d e)"
| "exec_op RunCycle e = snd (runCycle e)"

definition exec_ops :: "car_op list \<Rightarrow> Elevator \<Rightarrow> Elevator" where
  "exec_ops ops e = fold exec_op ops e"

text \<open>Every floor a car holds (its position and its pending requests) is in its range.\<close>

definition requests_valid :: "Elevator \<Rightarrow> bool" where
  "requests_valid e \<longleftrightarrow>
     list_all (isValidFloor e) (floorRequests e) \<and>
     list_all (\<lambda>r. isValidFloor e (req_floor r)) (hallRequests e)"

definition car_inv :: "Elevator \<Rightarrow> bool" where
  "car_inv e \<longleftrightarrow>
     isValidFloor e (currentFloor e) \<and>
     list_all (isValidFloor e) (floorRequests e) \<and>
     list_all (\<lambda>r. isValidFloor e (req_floor r)) (hallRequests e)"

section \<open>The scenario of \<^verbatim>\<open>demoElevatorSystem\<close>\<close>

text \<open>
  Two cars, floors 1 to 10; a hall call at 5 going up, a hall call at 8 going down, then
  the cabin requests 7 and 3 in the first car.
\<close>

definition demo_controller :: ElevatorController where
  "demo_controller = new_ElevatorController 2 1 10"

definition demo_call1 :: ElevatorController where
  "demo_call1 = snd (controller_callElevator 5 UP demo_controller)"

definition demo_call2 :: ElevatorController where
  "demo_call2 = snd (controller_callElevator 8 DOWN demo_call1)"

definition demo_car1 :: Elevator where
  "demo_car1 = snd (requestFloor 3 (snd (requestFloor 7 (elevators demo_call2 ! 0))))"

definition demo_car2 :: Elevator where
  "demo_car2 = elevators demo_call2 ! 1"

definition demo_system :: ElevatorController where
  "demo_system = demo_call2\<lparr>elevators := (elevators demo_call2)[0 := demo_car1]\<rparr>"

text \<open>The second car once it has answered its call: at floor 8, still going up.\<close>

definition arrived_car2 :: Elevator where
  "arrived_car2 = snd (runCycle demo_car2)"

text \<open>
  A car that has run the first car's three cycles and is then asked for the floors 3
  and 5 behind it, and a fresh car called at the floor where it rests.
\<close>

definition reversing_car :: Elevator where
  "reversing_car =
     snd (requestFloor 5 (snd (requestFloor 3 (exec_ops [RunCycle, RunCycle, RunCycle] demo_car1))))"

definition called_at_rest :: Elevator where
  "called_at_rest = snd (callElevator 1 UP (new_Elevator 1 1 10))"

text \<open>
  The first car after its first cycle, called meanwhile at floor 5 going down and at
  floor 6 going up.
\<close>

definition called_car1 :: Elevator where
  "called_car1 = snd (callElevator 6 UP (snd (callElevator 5 DOWN (snd (runCycle demo_car1)))))"

section \<open>The scenario, evaluated\<close>

lemma demo_controller_eq:
  "demo_controller = \<lparr> elevators = [new_Elevator 1 1 10, new_Elevator 2 1 10], ctl_minFloor = 1, ctl_maxFloor = 10 \<rparr>"
  by (simp add: demo_controller_def new_ElevatorController_def upt_rec)

lemma demo_call1_eq:
  "demo_call1 = \<lparr> elevators = [(new_Elevator 1 1 10)\<lparr>hallRequests := [\<lparr>req_floor = 5, req_direction = UP\<rparr>]\<rparr>, new_Elevator 2 1 10], ctl_minFloor = 1, ctl_maxFloor = 10 \<rparr>"
  by (simp add: demo_call1_def demo_controller_eq controller_callElevator_def score_def new_Elevator_def callElevator_def isValidFloor_def)

lemma demo_call2_eq:
  "demo_call2 = \<lparr> elevators = [(new_Elevator 1 1 10)\<lparr>hallRequests := [\<lparr>req_floor = 5, req_direction = UP\<rparr>]\<rparr>, (new_Elevator 2 1 10)\<lparr>hallRequests := [\<lparr>req_floor = 8, req_direction = DOWN\<rparr>]\<rparr>], ctl_minFloor = 1, ctl_maxFloor = 10 \<rparr>"
  by (simp add: demo_call2_def demo_call1_eq controller_callElevator_def score_def new_Elevator_def callElevator_def isValidFloor_def)

lemma demo_car1_eq:
  "demo_car1 = (new_Elevator 1 1 10)\<lparr>floorRequests := [3, 7], hallRequests := [\<lparr>req_floor = 5, req_direction = UP\<rparr>]\<rparr>"
  by (simp add: demo_car1_def demo_call2_eq requestFloor_def new_Elevator_def isValidFloor_def)

lemma demo_car2_eq:
  "demo_car2 = (new_Elevator 2 1 10)\<lparr>hallRequests := [\<lparr>req_floor = 8, req_direction = DOWN\<rparr>]\<rparr>"
  by (simp add: demo_car2_def demo_call2_eq)

lemma demo_system_eq: "elevators demo_system = [demo_car1, demo_car2]"
  by (simp add: demo_system_def demo_call2_eq demo_car2_eq)

lemmas cycle_defs = runCycle_def getNextDestination_def allFloors_def set_add_def hall_eligible_def
  moveToFloor_def updateDirection_def openDoors_def closeDoors_def removeCompletedRequests_def

lemma arrived_car2_eq:
  "arrived_car2 = (new_Elevator 2 1 10)\<lparr>currentFloor := 8, direction := UP, hallRequests := [\<lparr>req_floor = 8, req_direction = DOWN\<rparr>]\<rparr>"
  by (simp add: arrived_car2_def demo_car2_eq cycle_defs new_Elevator_def)

lemma arrived_car2_stuck: "runCycle arrived_car2 = (True, arrived_car2)"
  by (simp add: arrived_car2_eq cycle_defs new_Elevator_def)

lemma car1_dest1: "getNextDestination demo_car1 = Some 3"
  by (simp add: demo_car1_eq cycle_defs new_Elevator_def)

lemma car1_cycle1:
  "snd (runCycle demo_car1) = (new_Elevator 1 1 10)\<lparr>currentFloor := 3, direction := UP, floorRequests := [7], hallRequests := [\<lparr>req_floor = 5, req_direction = UP\<rparr>]\<rparr>"
  by (simp add: demo_car1_eq cycle_defs new_Elevator_def)

lemma car1_cycle2:
  "snd (runCycle (snd (runCycle demo_car1))) = (new_Elevator 1 1 10)\<lparr>currentFloor := 5, direction := UP, floorRequests := [7], hallRequests := []\<rparr>"
  by (simp add: car1_cycle1) (simp add: cycle_defs new_Elevator_def)

lemma car1_cycle3:
  "snd (runCycle (snd (runCycle (snd (runCycle demo_car1))))) = (new_Elevator 1 1 10)\<lparr>currentFloor := 7, direction := UP, floorRequests := [], hallRequests := []\<rparr>"
  by (simp add: car1_cycle2) (simp add: cycle_defs new_Elevator_def)

lemma reversing_car_eq:
  "reversing_car = (new_Elevator 1 1 10)\<lparr>currentFloor := 7, direction := UP, floorRequests := [3, 5], hallRequests := []\<rparr>"
  by (simp add: reversing_car_def exec_ops_def car1_cycle3)
     (simp add: requestFloor_def isValidFloor_def new_Elevator_def)

lemma called_at_rest_eq:
  "called_at_rest = (new_Elevator 1 1 10)\<lparr>hallRequests := [\<lparr>req_floor = 1, req_direction = UP\<rparr>]\<rparr>"
  by (simp add: called_at_rest_def callElevator_def isValidFloor_def new_Elevator_def)

lemma called_car1_eq:
  "called_car1 = (new_Elevator 1 1 10)\<lparr>currentFloor := 3, direction := UP, floorRequests := [7],
     hallRequests := [\<lparr>req_floor = 5, req_direction = UP\<rparr>, \<lparr>req_floor = 5, req_direction = DOWN\<rparr>,
                      \<lparr>req_floor = 6, req_direction = UP\<rparr>]\<rparr>"
  by (simp add: called_car1_def car1_cycle1)
     (simp add: callElevator_def isValidFloor_def new_Elevator_def)

section \<open>The next destination\<close>

text \<open>
  The array read from the \<^verbatim>\<open>Set\<close> holds exactly the eligible floors.
\<close>

lemma set_fold_set_add: "set (fold (\<lambda>f acc. set_add acc f) xs acc) = set acc \<union> set xs"
  by (induction xs arbitrary: acc) (auto simp: set_add_def)

lemma set_fold_hall:
  "set (fold (\<lambda>r acc. if P r then set_add acc (g r) else acc) rs acc)
     = set acc \<union> g ` {r \<in> set rs. P r}"
  by (induction rs arbitrary: acc) (auto simp: set_add_def)

lemma set_allFloors: "set (allFloors e) = eligible_floors e"
  by (simp add: allFloors_def eligible_floors_def set_fold_hall set_fold_set_add)

lemma allFloors_Nil: "allFloors e = [] \<longleftrightarrow> eligible_floors e = {}"
  using set_allFloors [of e] by (metis set_empty)

lemma Math_min_Min: "xs \<noteq> [] \<Longrightarrow> Math_min xs = Some (Min (set xs))"
  by (cases xs) (simp_all add: Min.set_eq_fold [symmetric])

lemma Math_max_Max: "xs \<noteq> [] \<Longrightarrow> Math_max xs = Some (Max (set xs))"
  by (cases xs) (simp_all add: Max.set_eq_fold [symmetric])

lemma Math_min_in: "Math_min xs = Some f \<Longrightarrow> f \<in> set xs"
proof (cases "xs = []")
  case False
  then have "Min (set xs) \<in> set xs" by simp
  moreover assume "Math_min xs = Some f"
  ultimately show ?thesis using False by (auto simp: Math_min_Min)
qed simp

lemma Math_max_in: "Math_max xs = Some f \<Longrightarrow> f \<in> set xs"
proof (cases "xs = []")
  case False
  then have "Max (set xs) \<in> set xs" by simp
  moreover assume "Math_max xs = Some f"
  ultimately show ?thesis using False by (auto simp: Math_max_Max)
qed simp

lemma closest_fold:
  "fold (\<lambda>current closest. if \<bar>current - cur\<bar> < \<bar>closest - cur\<bar> then current else closest) xs x
     \<in> set (x # xs) \<and>
   (\<forall>y\<in>set (x # xs).
      \<bar>fold (\<lambda>current closest. if \<bar>current - cur\<bar> < \<bar>closest - cur\<bar> then current else closest) xs x
         - cur\<bar> \<le> \<bar>y - (cur::int)\<bar>)"
proof (induction xs arbitrary: x)
  case Nil
  show ?case by simp
next
  case (Cons a xs)
  show ?case
  proof (cases "\<bar>a - cur\<bar> < \<bar>x - cur\<bar>")
    case True
    with Cons.IH [of a] show ?thesis by force
  next
    case False
    with Cons.IH [of x] show ?thesis by force
  qed
qed

lemma closest_reduce_spec:
  assumes "xs \<noteq> []"
  shows "\<exists>r. closest_reduce cur xs = Some r \<and> r \<in> set xs \<and> (\<forall>y\<in>set xs. \<bar>r - cur\<bar> \<le> \<bar>y - cur\<bar>)"
proof (cases xs)
  case Nil
  with assms show ?thesis by simp
next
  case (Cons x ys)
  with closest_fold [of cur ys x] show ?thesis by simp
qed

lemma closest_reduce_in: "closest_reduce cur xs = Some f \<Longrightarrow> f \<in> set xs"
  using closest_reduce_spec [of xs cur] by (cases "xs = []") auto

lemma getNextDestination_cases:
  assumes "getNextDestination e = Some f"
  shows "f \<in> set (allFloors e) \<and>
         ((direction e \<noteq> DOWN \<and> f > currentFloor e) \<or>
          (direction e \<noteq> UP \<and> f < currentFloor e) \<or> direction e \<noteq> IDLE)"
proof -
  let ?up = "filter (\<lambda>f. f > currentFloor e) (allFloors e)"
  let ?down = "filter (\<lambda>f. f < currentFloor e) (allFloors e)"
  from assms consider "direction e = UP \<or> direction e = IDLE" "Math_min ?up = Some f"
    | "direction e = DOWN \<or> direction e = IDLE" "Math_max ?down = Some f"
    | "direction e \<noteq> IDLE" "closest_reduce (currentFloor e) (allFloors e) = Some f"
    by (auto simp: getNextDestination_def Let_def split: if_splits)
  then show ?thesis
  proof cases
    case 1
    from Math_min_in [OF 1(2)] 1(1) show ?thesis by auto
  next
    case 2
    from Math_max_in [OF 2(2)] 2(1) show ?thesis by auto
  next
    case 3
    from closest_reduce_in [OF 3(2)] 3(1) show ?thesis by auto
  qed
qed

lemma getNextDestination_eligible:
  "getNextDestination e = Some f \<Longrightarrow> f \<in> eligible_floors e"
  using getNextDestination_cases [of e f] by (simp add: set_allFloors)

lemma idle_destination_moves:
  "getNextDestination e = Some f \<Longrightarrow> direction e = IDLE \<Longrightarrow> f \<noteq> currentFloor e"
  using getNextDestination_cases [of e f] by auto

text \<open>
  Claim C3. A car going up or idle, with an eligible floor strictly above its current
  floor, is sent to the lowest eligible floor above it.
\<close>

theorem getNextDestination_up_is_minimum:
  assumes "direction e = UP \<or> direction e = IDLE"
    and "\<exists>f\<in>eligible_floors e. f > currentFloor e"
  shows "getNextDestination e = Some (Min {f \<in> eligible_floors e. f > currentFloor e})"
proof -
  let ?up = "filter (\<lambda>f. f > currentFloor e) (allFloors e)"
  have s: "set ?up = {f \<in> eligible_floors e. f > currentFloor e}"
    by (auto simp: set_allFloors)
  with assms(2) have ne: "?up \<noteq> []"
    by (metis (mono_tags, lifting) empty_iff mem_Collect_eq set_empty)
  then have "allFloors e \<noteq> []" by auto
  with ne assms(1) have "getNextDestination e = Math_min ?up"
    by (simp add: getNextDestination_def Let_def)
  with ne s show ?thesis by (simp add: Math_min_Min)
qed

text \<open>
  The first car of the scenario after its first cycle: at floor 3 going up, with the
  cabin request 7 and the hall call at 5. It is sent to 5.
\<close>

theorem getNextDestination_up_is_minimum_witness:
  "(direction (snd (runCycle demo_car1)) = UP \<or> direction (snd (runCycle demo_car1)) = IDLE) \<and>
   (\<exists>f\<in>eligible_floors (snd (runCycle demo_car1)). f > currentFloor (snd (runCycle demo_car1))) \<and>
   eligible_floors (snd (runCycle demo_car1)) = {5, 7} \<and>
   getNextDestination (snd (runCycle demo_car1)) = Some 5"
proof -
  let ?e = "snd (runCycle demo_car1)"
  have h1: "direction ?e = UP \<or> direction ?e = IDLE"
    by (simp add: car1_cycle1)
  have el: "eligible_floors ?e = {5, 7}"
    unfolding set_allFloors [symmetric]
    by (simp add: car1_cycle1)
       (auto simp: allFloors_def hall_eligible_def set_add_def new_Elevator_def)
  have cur: "currentFloor ?e = 3"
    by (simp add: car1_cycle1)
  have h2: "\<exists>f\<in>eligible_floors ?e. f > currentFloor ?e"
    by (simp add: el cur)
  have "{f \<in> eligible_floors ?e. f > currentFloor ?e} = {5, 7}"
    by (auto simp: el cur)
  with getNextDestination_up_is_minimum [OF h1 h2] h1 h2 el show ?thesis by simp
qed

text \<open>
  Claim C4, for a car whose current floor and eligible floors are in the range where
  the code's distances are exact. A car going up with no eligible floor above it, or
  going down with none below it, and some eligible floor, is sent to an eligible floor
  at the least distance from its current floor, and no eligible floor at the same
  distance is lower. All the eligible floors lie on one side of the car here, so two of
  them at the same distance are the same floor.
\<close>

theorem getNextDestination_fallback_closest:
  assumes "(direction e = UP \<and> (\<forall>f\<in>eligible_floors e. f \<le> currentFloor e)) \<or>
           (direction e = DOWN \<and> (\<forall>f\<in>eligible_floors e. currentFloor e \<le> f))"
    and "eligible_floors e \<noteq> {}"
    and "exact_floor (currentFloor e)"
    and "\<forall>f\<in>eligible_floors e. exact_floor f"
  shows "\<exists>r. getNextDestination e = Some r \<and> r \<in> eligible_floors e \<and>
             (\<forall>f\<in>eligible_floors e. \<bar>r - currentFloor e\<bar> \<le> \<bar>f - currentFloor e\<bar>) \<and>
             (\<forall>f\<in>eligible_floors e. \<bar>f - currentFloor e\<bar> = \<bar>r - currentFloor e\<bar> \<longrightarrow> r \<le> f)"
proof -
  have ne: "allFloors e \<noteq> []"
    using assms(2) by (simp add: allFloors_Nil)
  have "getNextDestination e = closest_reduce (currentFloor e) (allFloors e)"
  proof -
    from assms(1) show ?thesis
    proof
      assume a: "direction e = UP \<and> (\<forall>f\<in>eligible_floors e. f \<le> currentFloor e)"
      then have "filter (\<lambda>f. f > currentFloor e) (allFloors e) = []"
        by (auto simp: filter_empty_conv set_allFloors)
      with a ne show ?thesis by (simp add: getNextDestination_def Let_def)
    next
      assume a: "direction e = DOWN \<and> (\<forall>f\<in>eligible_floors e. currentFloor e \<le> f)"
      then have "filter (\<lambda>f. f < currentFloor e) (allFloors e) = []"
        by (auto simp: filter_empty_conv set_allFloors)
      with a ne show ?thesis by (simp add: getNextDestination_def Let_def)
    qed
  qed
  moreover from closest_reduce_spec [OF ne, of "currentFloor e"]
  obtain r where r: "closest_reduce (currentFloor e) (allFloors e) = Some r"
      "r \<in> eligible_floors e" "\<forall>y\<in>eligible_floors e. \<bar>r - currentFloor e\<bar> \<le> \<bar>y - currentFloor e\<bar>"
    by (auto simp: set_allFloors)
  moreover have "\<forall>f\<in>eligible_floors e. \<bar>f - currentFloor e\<bar> = \<bar>r - currentFloor e\<bar> \<longrightarrow> r \<le> f"
    using assms(1) r(2) by fastforce
  ultimately show ?thesis by simp
qed

text \<open>
  A car at floor 7 going up with the cabin requests 3 and 5 is sent to 5.
\<close>

theorem getNextDestination_fallback_closest_witness:
  "direction reversing_car = UP \<and> currentFloor reversing_car = 7 \<and>
   eligible_floors reversing_car = {3, 5} \<and>
   getNextDestination reversing_car = Some 5"
proof -
  have d: "direction reversing_car = UP" and cur: "currentFloor reversing_car = 7"
    by (simp_all add: reversing_car_eq)
  have el: "eligible_floors reversing_car = {3, 5}"
    unfolding set_allFloors [symmetric]
    by (simp add: reversing_car_eq) (auto simp: allFloors_def set_add_def new_Elevator_def)
  have h1: "(direction reversing_car = UP \<and>
              (\<forall>f\<in>eligible_floors reversing_car. f \<le> currentFloor reversing_car)) \<or>
            (direction reversing_car = DOWN \<and>
              (\<forall>f\<in>eligible_floors reversing_car. currentFloor reversing_car \<le> f))"
    by (simp add: d el cur)
  have h2: "eligible_floors reversing_car \<noteq> {}"
    by (simp add: el)
  have h3: "exact_floor (currentFloor reversing_car)"
    by (simp add: cur exact_floor_def)
  have h4: "\<forall>f\<in>eligible_floors reversing_car. exact_floor f"
    by (simp add: el exact_floor_def)
  from getNextDestination_fallback_closest [OF h1 h2 h3 h4] obtain r where r: "getNextDestination reversing_car = Some r"
    "r \<in> eligible_floors reversing_car"
    "\<forall>f\<in>eligible_floors reversing_car.
        \<bar>r - currentFloor reversing_car\<bar> \<le> \<bar>f - currentFloor reversing_car\<bar>"
    by blast
  from r(2,3) have "r = 5" by (auto simp: el cur)
  with r(1) d cur el show ?thesis by simp
qed

text \<open>
  Claim C10. An idle car whose eligible floors all equal its current floor gets no
  destination; its cycle reports no work and leaves the car as it was, so any number of
  cycles leaves its hall requests pending.
\<close>

theorem idle_car_call_at_own_floor:
  assumes "direction e = IDLE"
    and "\<forall>f\<in>eligible_floors e. f = currentFloor e"
  shows "getNextDestination e = None \<and> runCycle e = (False, e) \<and>
         ((snd \<circ> runCycle) ^^ n) e = e \<and>
         hallRequests (((snd \<circ> runCycle) ^^ n) e) = hallRequests e"
proof -
  have "filter (\<lambda>f. f > currentFloor e) (allFloors e) = []"
    using assms(2) by (auto simp: filter_empty_conv set_allFloors)
  moreover have "filter (\<lambda>f. f < currentFloor e) (allFloors e) = []"
    using assms(2) by (auto simp: filter_empty_conv set_allFloors)
  ultimately have none: "getNextDestination e = None"
    using assms(1) by (simp add: getNextDestination_def Let_def)
  then have "runCycle e = (False, e\<lparr>direction := IDLE\<rparr>)"
    by (simp add: runCycle_def)
  moreover have "e\<lparr>direction := IDLE\<rparr> = e"
    using assms(1) by (cases e) simp
  ultimately have fixed: "runCycle e = (False, e)" by simp
  have "((snd \<circ> runCycle) ^^ n) e = e"
    by (induction n) (simp_all add: fixed)
  with none fixed show ?thesis by simp
qed

text \<open>
  A fresh car at floor 1 called at floor 1 going up: the call is accepted and five
  cycles later it is still pending.
\<close>

theorem idle_car_call_at_own_floor_witness:
  "direction called_at_rest = IDLE \<and>
   eligible_floors called_at_rest = {1} \<and> currentFloor called_at_rest = 1 \<and>
   hallRequests called_at_rest = [\<lparr>req_floor = 1, req_direction = UP\<rparr>] \<and>
   getNextDestination called_at_rest = None \<and>
   runCycle called_at_rest = (False, called_at_rest) \<and>
   hallRequests (((snd \<circ> runCycle) ^^ 5) called_at_rest) =
     [\<lparr>req_floor = 1, req_direction = UP\<rparr>]"
proof -
  have h1: "direction called_at_rest = IDLE"
    by (simp add: called_at_rest_eq new_Elevator_def)
  have el: "eligible_floors called_at_rest = {1}"
    by (auto simp: called_at_rest_eq eligible_floors_def hall_eligible_def new_Elevator_def)
  have cur: "currentFloor called_at_rest = 1"
    by (simp add: called_at_rest_eq new_Elevator_def)
  have h2: "\<forall>f\<in>eligible_floors called_at_rest. f = currentFloor called_at_rest"
    by (simp add: el cur)
  have hr: "hallRequests called_at_rest = [\<lparr>req_floor = 1, req_direction = UP\<rparr>]"
    by (simp add: called_at_rest_eq)
  from idle_car_call_at_own_floor [OF h1 h2, of 5] h1 el cur hr show ?thesis by simp
qed

section \<open>One cycle\<close>

lemma runCycle_Some:
  "getNextDestination e = Some f \<Longrightarrow>
   runCycle e = (True, closeDoors (removeCompletedRequests f (openDoors (moveToFloor f e))))"
  by (simp add: runCycle_def)

lemma moveToFloor_requests:
  "floorRequests (moveToFloor f e) = floorRequests e"
  "hallRequests (moveToFloor f e) = hallRequests e"
  "minFloor (moveToFloor f e) = minFloor e"
  "maxFloor (moveToFloor f e) = maxFloor e"
  "currentFloor (moveToFloor f e) = f"
  by (simp_all add: moveToFloor_def updateDirection_def)

lemma arrival_direction_not_IDLE:
  assumes "getNextDestination e = Some f"
  shows "direction (moveToFloor f e) \<noteq> IDLE"
  using idle_destination_moves [OF assms]
  by (auto simp: moveToFloor_def updateDirection_def)

text \<open>
  The direction after a cycle with destination \<open>f\<close>: \<^verbatim>\<open>_moveToFloor\<close> returns before
  \<^verbatim>\<open>_updateDirection\<close> when the car is already at \<open>f\<close>, so the third branch of
  \<^verbatim>\<open>_updateDirection\<close> never runs and the car keeps the direction it had.
\<close>

lemma runCycle_direction:
  assumes "getNextDestination e = Some f"
  shows "direction (snd (runCycle e)) =
           (if f > currentFloor e then UP else if f < currentFloor e then DOWN else direction e)"
  by (simp add: runCycle_Some [OF assms] closeDoors_def removeCompletedRequests_def
        openDoors_def moveToFloor_def updateDirection_def)

text \<open>
  Claim C2, at the second car of the scenario once it has reached floor 8: its
  destination is 8, the floor it is at, and after the cycle its direction is still
  \<open>UP\<close>, where the claim has \<open>IDLE\<close>.
\<close>

theorem runCycle_keeps_direction_at_own_floor:
  "getNextDestination arrived_car2 = Some 8 \<and> currentFloor arrived_car2 = 8 \<and>
   direction arrived_car2 = UP \<and> direction (snd (runCycle arrived_car2)) = UP"
proof -
  have "getNextDestination arrived_car2 = Some 8"
    by (simp add: arrived_car2_eq cycle_defs new_Elevator_def)
  moreover have "currentFloor arrived_car2 = 8 \<and> direction arrived_car2 = UP"
    by (simp add: arrived_car2_eq)
  ultimately show ?thesis by (simp add: arrived_car2_stuck)
qed

text \<open>
  The cabin requests of a car never hold a floor twice: \<^verbatim>\<open>requestFloor\<close> pushes a floor
  only when it is absent.
\<close>

lemma filter_remove1_other: "filter (\<lambda>g. g \<noteq> f) (remove1 f xs) = filter (\<lambda>g. g \<noteq> f) xs"
  by (induction xs) auto

lemma exec_ops_distinct:
  "distinct (floorRequests e) \<Longrightarrow> distinct (floorRequests (exec_ops ops e))"
  unfolding exec_ops_def
proof (induction ops arbitrary: e)
  case Nil
  then show ?case by simp
next
  case (Cons op ops)
  have "distinct (floorRequests (exec_op op e))"
  proof (cases op)
    case (RequestFloor f)
    with Cons.prems show ?thesis by (simp add: requestFloor_def)
  next
    case (CallElevator f d)
    with Cons.prems show ?thesis by (simp add: callElevator_def split: option.splits)
  next
    case RunCycle
    with Cons.prems show ?thesis
      by (simp add: runCycle_def closeDoors_def removeCompletedRequests_def openDoors_def
            moveToFloor_requests split: option.splits)
  qed
  with Cons.IH show ?case by simp
qed

lemma new_Elevator_distinct:
  "distinct (floorRequests (exec_ops ops (new_Elevator i minF maxF)))"
  by (rule exec_ops_distinct) (simp add: new_Elevator_def)

text \<open>
  Claim C5. A cycle with destination \<open>f\<close>, on a car whose cabin requests hold no floor
  twice, reports work; after it \<open>f\<close> is no cabin request, the hall requests left are
  those that are not at \<open>f\<close> with the direction the car has on arrival (or with any
  direction, were that direction \<open>IDLE\<close>), so none at \<open>f\<close> with the car's direction is
  left, and the requests at every other floor are the same, in the same order.
\<close>

theorem runCycle_retires_served_floor:
  assumes "runCycle e = (worked, e')"
    and "getNextDestination e = Some f"
    and "distinct (floorRequests e)"
  shows "worked \<and>
         direction e' = direction (moveToFloor f e) \<and>
         f \<notin> set (floorRequests e') \<and>
         hallRequests e' =
           filter (\<lambda>r. \<not> (req_floor r = f \<and>
                     (req_direction r = direction (moveToFloor f e) \<or>
                      direction (moveToFloor f e) = IDLE)))
                  (hallRequests e) \<and>
         (\<forall>r\<in>set (hallRequests e'). \<not> (req_floor r = f \<and> req_direction r = direction e')) \<and>
         filter (\<lambda>g. g \<noteq> f) (floorRequests e') = filter (\<lambda>g. g \<noteq> f) (floorRequests e) \<and>
         filter (\<lambda>r. req_floor r \<noteq> f) (hallRequests e') =
           filter (\<lambda>r. req_floor r \<noteq> f) (hallRequests e)"
proof -
  let ?a = "moveToFloor f e"
  from assms(1,2) have w: "worked"
    and e': "e' = closeDoors (removeCompletedRequests f (openDoors ?a))"
    by (simp_all add: runCycle_Some)
  have d: "direction e' = direction ?a"
    by (simp add: e' closeDoors_def removeCompletedRequests_def openDoors_def)
  have fr: "floorRequests e' = remove1 f (floorRequests e)"
    by (simp add: e' closeDoors_def removeCompletedRequests_def openDoors_def moveToFloor_requests)
  have hr: "hallRequests e' =
      filter (\<lambda>r. \<not> (req_floor r = f \<and> (req_direction r = direction ?a \<or> direction ?a = IDLE)))
        (hallRequests e)"
    by (simp add: e' closeDoors_def removeCompletedRequests_def openDoors_def moveToFloor_requests)
  have 1: "f \<notin> set (floorRequests e')"
    using assms(3) by (simp add: fr)
  have 2: "\<forall>r\<in>set (hallRequests e'). \<not> (req_floor r = f \<and> req_direction r = direction e')"
    by (auto simp: hr d)
  have 3: "filter (\<lambda>g. g \<noteq> f) (floorRequests e') = filter (\<lambda>g. g \<noteq> f) (floorRequests e)"
    by (simp add: fr filter_remove1_other)
  have 4: "filter (\<lambda>r. req_floor r \<noteq> f) (hallRequests e') =
           filter (\<lambda>r. req_floor r \<noteq> f) (hallRequests e)"
    unfolding hr filter_filter by (rule filter_cong) auto
  from w d 1 hr 2 3 4 show ?thesis by blast
qed

text \<open>
  The first car at floor 3 going up, with the cabin request 7 and the hall calls at 5
  going up, at 5 going down and at 6 going up: it arrives at 5 going up, the call at 5
  going up is retired, and the other two calls and the cabin request stay.
\<close>

theorem runCycle_retires_served_floor_witness:
  "runCycle called_car1 = (True, snd (runCycle called_car1)) \<and>
   getNextDestination called_car1 = Some 5 \<and>
   distinct (floorRequests called_car1) \<and>
   direction (snd (runCycle called_car1)) = UP \<and>
   hallRequests (snd (runCycle called_car1)) =
     [\<lparr>req_floor = 5, req_direction = DOWN\<rparr>, \<lparr>req_floor = 6, req_direction = UP\<rparr>] \<and>
   floorRequests (snd (runCycle called_car1)) = [7]"
proof -
  have h2: "getNextDestination called_car1 = Some 5"
    by (simp add: called_car1_eq) (simp add: cycle_defs new_Elevator_def)
  then have h1: "runCycle called_car1 = (True, snd (runCycle called_car1))"
    by (simp add: runCycle_def)
  have h3: "distinct (floorRequests called_car1)"
    by (simp add: called_car1_eq)
  have hr: "hallRequests called_car1 =
      [\<lparr>req_floor = 5, req_direction = UP\<rparr>, \<lparr>req_floor = 5, req_direction = DOWN\<rparr>,
       \<lparr>req_floor = 6, req_direction = UP\<rparr>]"
    and fr: "floorRequests called_car1 = [7]"
    by (simp_all add: called_car1_eq)
  have mv: "direction (moveToFloor 5 called_car1) = UP"
    by (simp add: called_car1_eq) (simp add: moveToFloor_def updateDirection_def new_Elevator_def)
  have "floorRequests (snd (runCycle called_car1)) = remove1 5 (floorRequests called_car1)"
    by (simp add: runCycle_Some [OF h2] closeDoors_def removeCompletedRequests_def
          openDoors_def moveToFloor_requests)
  then have fr': "floorRequests (snd (runCycle called_car1)) = [7]"
    by (simp add: fr)
  from runCycle_retires_served_floor [OF h1 h2 h3] h1 h2 h3 fr' show ?thesis
    by (simp add: hr mv)
qed

section \<open>Rounds of the driving loop\<close>

lemma stepAll_stuck:
  assumes "e \<in> set (elevators c)" and "runCycle e = (True, e)"
  shows "fst (stepAll c) \<and> e \<in> set (elevators (snd (stepAll c)))"
proof -
  have "fst (stepAll c) \<longleftrightarrow> (\<exists>x\<in>set (elevators c). fst (runCycle x))"
    by (simp add: stepAll_def Let_def list_ex_iff)
  moreover have "elevators (snd (stepAll c)) = map (\<lambda>x. snd (runCycle x)) (elevators c)"
    by (simp add: stepAll_def Let_def)
  moreover have "fst (runCycle e)" "snd (runCycle e) = e"
    using assms(2) by simp_all
  ultimately show ?thesis
    using assms(1) by (metis (no_types, lifting) image_eqI list.set_map)
qed

lemma demo_round1: "arrived_car2 \<in> set (elevators (snd (stepAll demo_system)))"
  by (simp add: stepAll_def demo_system_eq arrived_car2_def)

lemma demo_rounds: "arrived_car2 \<in> set (elevators (((snd \<circ> stepAll) ^^ Suc n) demo_system))"
proof (induction n)
  case 0
  show ?case using demo_round1 by simp
next
  case (Suc n)
  then show ?case using stepAll_stuck [OF _ arrived_car2_stuck] by simp
qed

text \<open>
  Claim C1, at the scenario of \<^verbatim>\<open>demoElevatorSystem\<close>: after any number of rounds the
  next round still reports work. The second car reaches floor 8 going up, the call at 8
  going down is not retired, and every later cycle finds floor 8 again.
\<close>

theorem demo_stepAll_never_false: "fst (stepAll (((snd \<circ> stepAll) ^^ n) demo_system))"
proof (cases n)
  case 0
  have "fst (runCycle demo_car2)"
    by (simp add: demo_car2_eq cycle_defs new_Elevator_def)
  then show ?thesis using 0 by (simp add: stepAll_def demo_system_eq)
next
  case (Suc m)
  then show ?thesis
    using stepAll_stuck [OF demo_rounds [of m] arrived_car2_stuck] by simp
qed

section \<open>Requests and the floor range\<close>

text \<open>
  Claim C7. A cabin request or a hall call for a floor outside the range of the car is
  refused and the car is unchanged; so is a call going up at the top floor and a call
  going down at the bottom floor.
\<close>

theorem invalid_requests_rejected:
  "(\<not> (minFloor e \<le> f \<and> f \<le> maxFloor e) \<longrightarrow>
      requestFloor f e = (False, e) \<and> callElevator f d e = (False, e)) \<and>
   callElevator (maxFloor e) UP e = (False, e) \<and>
   callElevator (minFloor e) DOWN e = (False, e)"
  by (auto simp: requestFloor_def callElevator_def isValidFloor_def)

text \<open>
  Floor 11 in a car of floors 1 to 10.
\<close>

theorem invalid_requests_rejected_witness:
  "\<not> (minFloor (new_Elevator 1 1 10) \<le> 11 \<and> 11 \<le> maxFloor (new_Elevator 1 1 10)) \<and>
   requestFloor 11 (new_Elevator 1 1 10) = (False, new_Elevator 1 1 10) \<and>
   callElevator 11 DOWN (new_Elevator 1 1 10) = (False, new_Elevator 1 1 10)"
  using invalid_requests_rejected [of "new_Elevator 1 1 10" 11 DOWN] by (simp add: new_Elevator_def)

lemma eligible_floors_valid:
  "car_inv e \<Longrightarrow> f \<in> eligible_floors e \<Longrightarrow> isValidFloor e f"
  by (auto simp: car_inv_def eligible_floors_def list_all_iff)

lemma requestFloor_inv:
  assumes "car_inv e"
  shows "car_inv (snd (requestFloor f e)) \<and>
         minFloor (snd (requestFloor f e)) = minFloor e \<and>
         maxFloor (snd (requestFloor f e)) = maxFloor e"
  using assms by (auto simp: requestFloor_def car_inv_def isValidFloor_def list_all_iff)

lemma callElevator_inv:
  assumes "car_inv e"
  shows "car_inv (snd (callElevator f d e)) \<and>
         minFloor (snd (callElevator f d e)) = minFloor e \<and>
         maxFloor (snd (callElevator f d e)) = maxFloor e"
  using assms
  by (auto simp: callElevator_def car_inv_def isValidFloor_def list_all_iff split: option.splits)

lemma runCycle_inv:
  assumes "car_inv e"
  shows "car_inv (snd (runCycle e)) \<and>
         minFloor (snd (runCycle e)) = minFloor e \<and>
         maxFloor (snd (runCycle e)) = maxFloor e"
proof (cases "getNextDestination e")
  case None
  with assms show ?thesis
    by (simp add: runCycle_def car_inv_def isValidFloor_def list_all_iff)
next
  case (Some f)
  let ?e' = "closeDoors (removeCompletedRequests f (openDoors (moveToFloor f e)))"
  from Some assms have v: "minFloor e \<le> f \<and> f \<le> maxFloor e"
    using eligible_floors_valid getNextDestination_eligible isValidFloor_def by blast
  have b: "minFloor ?e' = minFloor e" "maxFloor ?e' = maxFloor e" "currentFloor ?e' = f"
    by (simp_all add: closeDoors_def removeCompletedRequests_def openDoors_def
          moveToFloor_requests)
  have fr: "set (floorRequests ?e') \<subseteq> set (floorRequests e)"
    using set_remove1_subset [of f "floorRequests e"]
    by (simp add: closeDoors_def removeCompletedRequests_def openDoors_def
          moveToFloor_requests)
  have hr: "set (hallRequests ?e') \<subseteq> set (hallRequests e)"
    by (auto simp: closeDoors_def removeCompletedRequests_def openDoors_def
          moveToFloor_requests)
  have "car_inv ?e'"
    using assms v fr hr unfolding car_inv_def isValidFloor_def list_all_iff b by blast
  with b Some show ?thesis by (simp add: runCycle_def)
qed

lemma exec_op_inv:
  "car_inv e \<Longrightarrow>
   car_inv (exec_op op e) \<and> minFloor (exec_op op e) = minFloor e \<and>
   maxFloor (exec_op op e) = maxFloor e"
  by (cases op) (simp_all add: requestFloor_inv callElevator_inv runCycle_inv)

lemma exec_ops_inv:
  "car_inv e \<Longrightarrow>
   car_inv (exec_ops ops e) \<and> minFloor (exec_ops ops e) = minFloor e \<and>
   maxFloor (exec_ops ops e) = maxFloor e"
  unfolding exec_ops_def
proof (induction ops arbitrary: e)
  case Nil
  then show ?case by simp
next
  case (Cons op ops)
  from exec_op_inv [OF Cons.prems, of op] Cons.IH [of "exec_op op e"]
  show ?case by simp
qed

text \<open>
  The pending floors of a car are valid whatever its bounds: both request methods check
  \<^verbatim>\<open>_isValidFloor\<close> before they store a floor. So a car that is in its range stays in it.
\<close>

lemma car_inv_iff: "car_inv e \<longleftrightarrow> isValidFloor e (currentFloor e) \<and> requests_valid e"
  by (simp add: car_inv_def requests_valid_def)

lemma exec_op_requests_valid:
  assumes "requests_valid e"
  shows "requests_valid (exec_op op e) \<and> minFloor (exec_op op e) = minFloor e \<and>
         maxFloor (exec_op op e) = maxFloor e"
proof (cases op)
  case (RequestFloor f)
  with assms show ?thesis
    by (auto simp: requestFloor_def requests_valid_def isValidFloor_def list_all_iff)
next
  case (CallElevator f d)
  with assms show ?thesis
    by (auto simp: callElevator_def requests_valid_def isValidFloor_def list_all_iff
          split: option.splits)
next
  case RunCycle
  show ?thesis
  proof (cases "getNextDestination e")
    case None
    with assms RunCycle show ?thesis
      by (simp add: runCycle_def requests_valid_def isValidFloor_def list_all_iff)
  next
    case (Some f)
    let ?e' = "closeDoors (removeCompletedRequests f (openDoors (moveToFloor f e)))"
    have b: "minFloor ?e' = minFloor e" "maxFloor ?e' = maxFloor e"
      by (simp_all add: closeDoors_def removeCompletedRequests_def openDoors_def
            moveToFloor_requests)
    have fr: "set (floorRequests ?e') \<subseteq> set (floorRequests e)"
      using set_remove1_subset [of f "floorRequests e"]
      by (simp add: closeDoors_def removeCompletedRequests_def openDoors_def
            moveToFloor_requests)
    have hr: "set (hallRequests ?e') \<subseteq> set (hallRequests e)"
      by (auto simp: closeDoors_def removeCompletedRequests_def openDoors_def
            moveToFloor_requests)
    have "requests_valid ?e'"
      using assms fr hr unfolding requests_valid_def isValidFloor_def list_all_iff b by blast
    with b Some RunCycle show ?thesis by (simp add: runCycle_def)
  qed
qed

lemma exec_ops_requests_valid:
  "requests_valid e \<Longrightarrow> requests_valid (exec_ops ops e)"
  unfolding exec_ops_def
proof (induction ops arbitrary: e)
  case Nil
  then show ?case by simp
next
  case (Cons op ops)
  from exec_op_requests_valid [OF Cons.prems, of op] Cons.IH [of "exec_op op e"]
  show ?case by simp
qed

lemma new_Elevator_requests_valid:
  "requests_valid (exec_ops ops (new_Elevator i minF maxF))"
  by (rule exec_ops_requests_valid) (simp add: requests_valid_def new_Elevator_def)

lemma in_range_preserved:
  assumes "e = exec_ops ops (new_Elevator i minF maxF)"
    and "minFloor e \<le> currentFloor e" and "currentFloor e \<le> maxFloor e"
  shows "minFloor (exec_ops ops' e) \<le> currentFloor (exec_ops ops' e) \<and>
         currentFloor (exec_ops ops' e) \<le> maxFloor (exec_ops ops' e) \<and>
         minFloor (exec_ops ops' e) = minFloor e \<and> maxFloor (exec_ops ops' e) = maxFloor e"
proof -
  have "car_inv e"
    using assms new_Elevator_requests_valid [of ops i minF maxF]
    by (simp add: car_inv_iff isValidFloor_def)
  from exec_ops_inv [OF this, of ops'] show ?thesis
    by (simp add: car_inv_def isValidFloor_def)
qed

text \<open>
  Claim C9, at a car built with the bounds 2 and 10, which satisfy \<open>minFloor < maxFloor\<close>:
  the constructor sets \<^verbatim>\<open>currentFloor\<close> to 1 whatever the bounds, so the new car is below
  its range, at a floor its own \<^verbatim>\<open>_isValidFloor\<close> refuses.
\<close>

theorem new_Elevator_outside_range:
  "(2::int) < 10 \<and>
   minFloor (new_Elevator 1 2 10) = 2 \<and> maxFloor (new_Elevator 1 2 10) = 10 \<and>
   currentFloor (new_Elevator 1 2 10) = 1 \<and>
   \<not> (minFloor (new_Elevator 1 2 10) \<le> currentFloor (new_Elevator 1 2 10)) \<and>
   \<not> isValidFloor (new_Elevator 1 2 10) (currentFloor (new_Elevator 1 2 10))"
  by (simp add: new_Elevator_def isValidFloor_def)

section \<open>The controller\<close>





text \<open>
  Claim C8 as stated fails: the first destination of the first car is not floor 5.
\<close>

theorem demo_car1_first_stop_not_5: "getNextDestination demo_car1 \<noteq> Some 5"
  by (simp add: car1_dest1)

text \<open>
  Claim C8, amended. The first call goes to the first car and the second call to the
  second car; the first car, holding the cabin requests 3 and 7 as well, visits 3, then
  5, then 7, and then has nothing left; the second car goes to floor 8 in one cycle.
\<close>

theorem demo_visit_order:
  "bestLoop 5 UP 0 (elevators demo_controller) None = Some (0, 4) \<and>
   bestLoop 8 DOWN 0 (elevators demo_call1) None = Some (1, 7) \<and>
   map hallRequests (elevators demo_call2) =
     [[\<lparr>req_floor = 5, req_direction = UP\<rparr>], [\<lparr>req_floor = 8, req_direction = DOWN\<rparr>]] \<and>
   floorRequests demo_car1 = [3, 7] \<and>
   getNextDestination demo_car1 = Some 3 \<and>
   getNextDestination (snd (runCycle demo_car1)) = Some 5 \<and>
   getNextDestination (snd (runCycle (snd (runCycle demo_car1)))) = Some 7 \<and>
   getNextDestination (snd (runCycle (snd (runCycle (snd (runCycle demo_car1)))))) = None \<and>
   getNextDestination demo_car2 = Some 8 \<and>
   currentFloor (snd (runCycle demo_car2)) = 8"
proof -
  have a: "bestLoop 5 UP 0 (elevators demo_controller) None = Some (0, 4)"
    by (simp add: demo_controller_eq score_def new_Elevator_def)
  have b: "bestLoop 8 DOWN 0 (elevators demo_call1) None = Some (1, 7)"
    by (simp add: demo_call1_eq score_def new_Elevator_def)
  have c: "map hallRequests (elevators demo_call2) =
     [[\<lparr>req_floor = 5, req_direction = UP\<rparr>], [\<lparr>req_floor = 8, req_direction = DOWN\<rparr>]]"
    by (simp add: demo_call2_eq)
  have d: "floorRequests demo_car1 = [3, 7]"
    by (simp add: demo_car1_eq)
  have e: "getNextDestination (snd (runCycle demo_car1)) = Some 5"
    by (simp add: car1_cycle1) (simp add: cycle_defs new_Elevator_def)
  have f: "getNextDestination (snd (runCycle (snd (runCycle demo_car1)))) = Some 7"
    by (simp add: car1_cycle2) (simp add: cycle_defs new_Elevator_def)
  have g: "getNextDestination (snd (runCycle (snd (runCycle (snd (runCycle demo_car1)))))) = None"
    by (simp add: car1_cycle3) (simp add: cycle_defs new_Elevator_def)
  have h: "getNextDestination demo_car2 = Some 8"
    by (simp add: demo_car2_eq cycle_defs new_Elevator_def)
  have i: "currentFloor (snd (runCycle demo_car2)) = 8"
    using arrived_car2_eq by (simp add: arrived_car2_def)
  from a b c d car1_dest1 e f g h i show ?thesis by blast
qed

end
